theory Spec2Isabelle
  imports Main "HOL-Library.Word" "HOL-Library.Sublist"
begin

section \<open>Data model\<close>

text \<open>
  The program is \<^verbatim>\<open>11.10 -- Recursion/main.cpp\<close>. Its two Fibonacci functions take and
  return \<^verbatim>\<open>std::size_t\<close>, modelled as a 64-bit word (unsigned, arithmetic wraps), and
  the memoized one keeps a \<^verbatim>\<open>static std::vector<int>\<close>, modelled as a list of 32-bit
  words (read as two's complement) that is passed in and returned. These are the widths
  of the usual 64-bit platforms; a conversion to \<^verbatim>\<open>int\<close> keeps the low 32 bits, and a
  conversion of an \<^verbatim>\<open>int\<close> to \<^verbatim>\<open>size_t\<close> extends the sign.
\<close>

type_synonym size_t = "64 word"
type_synonym cint = "32 word"
type_synonym cache = "cint list"

text \<open>
  \<^verbatim>\<open>results[x]\<close> with \<^verbatim>\<open>x\<close> beyond the vector's length is undefined behaviour in
  C++: the model makes it the value \<open>OutOfRange\<close>. \<open>StackOverflow\<close> is the end of a
  recursion that needs more frames than the call stack has. \<open>InvalidArgument\<close> is the
  error kind the specification names; no path of the source produces it.
\<close>

datatype error = OutOfRange | StackOverflow | InvalidArgument

text \<open>\<^verbatim>\<open>static std::vector<int> results{0, 1};\<close>\<close>

definition fresh :: cache where
  "fresh = [0, 1]"

section \<open>The naive recursion\<close>

text \<open>
  \<^verbatim>\<open>
  std::size_t Fibonacci(std::size_t x)
  {
      if(x == 0) return 0;
      else if(x == 1) return 1;
      else return (Fibonacci(x-1) + Fibonacci(x-2));
  }
  \<close>
  The recursion ends because the unsigned argument decreases: it is neither 0 nor 1
  where the function calls itself.
\<close>

function Fibonacci :: "size_t \<Rightarrow> size_t" where
  "Fibonacci x =
     (if x = 0 then 0
      else if x = 1 then 1
      else Fibonacci (x - 1) + Fibonacci (x - 2))"
  by pat_completeness auto
termination
proof (relation "measure unat")
  show "wf (measure (unat :: size_t \<Rightarrow> nat))" by simp
next
  fix x :: size_t
  assume "x \<noteq> 0" and "x \<noteq> 1"
  then show "(x - 1, x) \<in> measure unat"
    by (simp add: unat_minus_one unat_gt_0)
next
  fix x :: size_t
  assume "x \<noteq> 0" and "x \<noteq> 1"
  then have "unat x \<noteq> 0" and "unat x \<noteq> 1"
    by (simp_all add: word_unat_eq_iff)
  then have ge: "2 \<le> unat x" by arith
  then have "(2 :: size_t) \<le> x" by (simp add: word_le_nat_alt)
  then have "unat (x - 2) = unat x - 2" by (simp add: unat_sub)
  with ge show "(x - 2, x) \<in> measure unat" by simp
qed

declare Fibonacci.simps [simp del]

text \<open>
  The same recursion, returning the arguments of every invocation of \<^verbatim>\<open>Fibonacci\<close>
  that one call makes, itself first (the left operand of \<^verbatim>\<open>+\<close> before the right one;
  C++ leaves that order open, and only the number of occurrences is used below).
\<close>

function Fibonacci_evals :: "size_t \<Rightarrow> size_t list" where
  "Fibonacci_evals x =
     (if x = 0 then [x]
      else if x = 1 then [x]
      else x # Fibonacci_evals (x - 1) @ Fibonacci_evals (x - 2))"
  by pat_completeness auto
termination
proof (relation "measure unat")
  show "wf (measure (unat :: size_t \<Rightarrow> nat))" by simp
next
  fix x :: size_t
  assume "x \<noteq> 0" and "x \<noteq> 1"
  then show "(x - 1, x) \<in> measure unat"
    by (simp add: unat_minus_one unat_gt_0)
next
  fix x :: size_t
  assume "x \<noteq> 0" and "x \<noteq> 1"
  then have "unat x \<noteq> 0" and "unat x \<noteq> 1"
    by (simp_all add: word_unat_eq_iff)
  then have ge: "2 \<le> unat x" by arith
  then have "(2 :: size_t) \<le> x" by (simp add: word_le_nat_alt)
  then have "unat (x - 2) = unat x - 2" by (simp add: unat_sub)
  with ge show "(x - 2, x) \<in> measure unat" by simp
qed

declare Fibonacci_evals.simps [simp del]

section \<open>The memoized version\<close>

text \<open>
  \<^verbatim>\<open>
  std::size_t Fibonacci_memoized_version(std::size_t x)
  {
      static std::vector<int> results{0, 1};
      if(x < static_cast<int>(std::size(results)))
          return results[x];
      else
      {
          results.push_back(Fibonacci(x - 1) + Fibonacci(x - 2));
          return results[x];
      }
  }
  \<close>
  \<^verbatim>\<open>std::size\<close> gives a \<^verbatim>\<open>size_t\<close>, the cast keeps its low 32 bits as an
  \<^verbatim>\<open>int\<close>, and the comparison with the unsigned \<^verbatim>\<open>x\<close> converts that \<^verbatim>\<open>int\<close> back
  to \<^verbatim>\<open>size_t\<close> (sign-extended).
\<close>

definition size_as_int :: "cache \<Rightarrow> cint" where
  "size_as_int results = ucast (of_nat (length results) :: size_t)"

text \<open>
  \<^verbatim>\<open>return results[x];\<close>: the unchecked subscript, and the conversion of the \<^verbatim>\<open>int\<close>
  element to the \<^verbatim>\<open>size_t\<close> return type (sign-extended).
\<close>

definition subscript :: "cache \<Rightarrow> size_t \<Rightarrow> error + size_t" where
  "subscript results x =
     (if unat x < length results then Inr (scast (results ! unat x)) else Inl OutOfRange)"

definition push_back :: "cache \<Rightarrow> cint \<Rightarrow> cache" where
  "push_back results v = results @ [v]"

text \<open>
  The call takes the vector and returns the outcome with the vector as the call leaves
  it. The value pushed is the \<^verbatim>\<open>size_t\<close> sum narrowed to \<^verbatim>\<open>int\<close> (its low 32 bits).
  On the miss path the vector has grown by one element before the subscript is read.
\<close>

definition Fibonacci_memoized_version :: "size_t \<Rightarrow> cache \<Rightarrow> (error + size_t) \<times> cache" where
  "Fibonacci_memoized_version x results =
     (if x < scast (size_as_int results) then (subscript results x, results)
      else
        let results' = push_back results (ucast (Fibonacci (x - 1) + Fibonacci (x - 2)))
        in (subscript results' x, results'))"

text \<open>
  The invocations of \<^verbatim>\<open>Fibonacci\<close> that one call of the memoized version makes: none on
  the hit path, those of \<^verbatim>\<open>Fibonacci(x - 1)\<close> and \<^verbatim>\<open>Fibonacci(x - 2)\<close> on the miss path.
\<close>

definition memoized_evals :: "size_t \<Rightarrow> cache \<Rightarrow> size_t list" where
  "memoized_evals x results =
     (if x < scast (size_as_int results) then []
      else Fibonacci_evals (x - 1) @ Fibonacci_evals (x - 2))"

text \<open>
  A sequence of calls on one evaluator, as the loop of \<^verbatim>\<open>main\<close> makes them. The run
  stops at the first out-of-range read: nothing is defined after it.
\<close>

fun run :: "size_t list \<Rightarrow> cache \<Rightarrow> (error + size_t) list \<times> cache" where
  "run [] results = ([], results)"
| "run (x # xs) results =
     (case Fibonacci_memoized_version x results of
        (Inl e, results') \<Rightarrow> ([Inl e], results')
      | (Inr v, results') \<Rightarrow>
          (case run xs results' of (rs, results'') \<Rightarrow> (Inr v # rs, results'')))"

text \<open>
  The invocations of \<^verbatim>\<open>Fibonacci\<close> that such a sequence of calls makes, call after
  call, up to the call at which the run stops.
\<close>

fun run_evals :: "size_t list \<Rightarrow> cache \<Rightarrow> size_t list" where
  "run_evals [] results = []"
| "run_evals (x # xs) results =
     memoized_evals x results @
     (case Fibonacci_memoized_version x results of
        (Inl e, results') \<Rightarrow> []
      | (Inr v, results') \<Rightarrow> run_evals xs results')"

section \<open>The call stack\<close>

text \<open>
  \<^verbatim>\<open>Fibonacci\<close> has no depth guard: every invocation holds a frame of the call stack
  until it returns, and the program ends where the stack is exhausted. The functions
  above leave the stack out, as if it were unbounded. The two below are the same code
  with a stack of \<open>d\<close> frames for \<^verbatim>\<open>Fibonacci\<close>: an invocation that finds no frame
  left ends the call with \<open>StackOverflow\<close>. The left operand of \<^verbatim>\<open>+\<close> is taken first;
  the properties below do not depend on that order.
\<close>

fun Fibonacci_stack :: "nat \<Rightarrow> size_t \<Rightarrow> error + size_t" where
  "Fibonacci_stack 0 x = Inl StackOverflow"
| "Fibonacci_stack (Suc d) x =
     (if x = 0 then Inr 0
      else if x = 1 then Inr 1
      else
        (case Fibonacci_stack d (x - 1) of
           Inl e \<Rightarrow> Inl e
         | Inr a \<Rightarrow>
             (case Fibonacci_stack d (x - 2) of
                Inl e \<Rightarrow> Inl e
              | Inr b \<Rightarrow> Inr (a + b))))"

text \<open>
  The memoized version with \<open>d\<close> frames left for the naive recursion. The argument of
  \<^verbatim>\<open>push_back\<close> is evaluated before the push: where the recursion exhausts the stack,
  nothing has been pushed.
\<close>

definition Fibonacci_memoized_version_stack ::
  "nat \<Rightarrow> size_t \<Rightarrow> cache \<Rightarrow> (error + size_t) \<times> cache" where
  "Fibonacci_memoized_version_stack d x results =
     (if x < scast (size_as_int results) then (subscript results x, results)
      else
        (case Fibonacci_stack d (x - 1) of
           Inl e \<Rightarrow> (Inl e, results)
         | Inr a \<Rightarrow>
             (case Fibonacci_stack d (x - 2) of
                Inl e \<Rightarrow> (Inl e, results)
              | Inr b \<Rightarrow>
                  let results' = push_back results (ucast (a + b))
                  in (subscript results' x, results'))))"

section \<open>Notions used to state the properties\<close>

text \<open>
  The sequence of the comment in \<^verbatim>\<open>Fibonacci\<close>, on the natural numbers:
  \<^verbatim>\<open>F(n) = 0 if n = 0, 1 if n = 1, f(n-1) + f(n-2) if n > 1\<close>.
\<close>

fun fib :: "nat \<Rightarrow> nat" where
  "fib 0 = 0"
| "fib (Suc 0) = 1"
| "fib (Suc (Suc n)) = fib (Suc n) + fib n"

text \<open>
  A linear-time form of the sequence, used to evaluate it at given indices.
\<close>

primrec fib_iter :: "nat \<Rightarrow> int \<Rightarrow> int \<Rightarrow> int" where
  "fib_iter 0 a b = a"
| "fib_iter (Suc n) a b = fib_iter n b (a + b)"

text \<open>
  What becomes of a \<^verbatim>\<open>size_t\<close> value that is stored in the \<^verbatim>\<open>int\<close> vector and read
  back as the \<^verbatim>\<open>size_t\<close> return value: its low 32 bits, sign-extended.
\<close>

definition through_int :: "size_t \<Rightarrow> size_t" where
  "through_int v = scast (ucast v :: cint)"

text \<open>
  The vector that \<open>n\<close> entries computed in index order make: entry \<open>i\<close> is
  \<^verbatim>\<open>Fibonacci(i)\<close> narrowed to \<^verbatim>\<open>int\<close>. A vector is well filled when it has the
  two initial entries at least and every entry is of this form. The fresh vector is,
  and a call whose argument is at most the size keeps it so.
\<close>

definition fib_cache :: "nat \<Rightarrow> cache" where
  "fib_cache n = map (\<lambda>i. ucast (Fibonacci (of_nat i))) [0..<n]"

definition cache_ok :: "cache \<Rightarrow> bool" where
  "cache_ok results \<longleftrightarrow> 2 \<le> length results \<and> results = fib_cache (length results)"

text \<open>
  The cached keys are the indices of the vector.
\<close>

definition keys :: "cache \<Rightarrow> nat set" where
  "keys results = {0..<length results}"

section \<open>Lemmas\<close>

subsection \<open>The sequence and the naive recursion\<close>

lemma ne01_ge2: "x \<noteq> 0 \<Longrightarrow> x \<noteq> 1 \<Longrightarrow> 2 \<le> unat (x :: size_t)"
proof -
  assume "x \<noteq> 0" "x \<noteq> 1"
  then have "unat x \<noteq> 0" "unat x \<noteq> 1"
    by (simp_all add: word_unat_eq_iff)
  then show ?thesis by arith
qed

lemma unat_pred: "x \<noteq> 0 \<Longrightarrow> unat (x - 1 :: size_t) = unat x - 1"
  by (simp add: unat_minus_one)

lemma unat_pred2: "x \<noteq> 0 \<Longrightarrow> x \<noteq> 1 \<Longrightarrow> unat (x - 2 :: size_t) = unat x - 2"
proof -
  assume nz: "x \<noteq> 0" and no: "x \<noteq> 1"
  have "2 \<le> unat x" using nz no by (rule ne01_ge2)
  then have "(2::size_t) \<le> x" by (simp add: word_le_nat_alt)
  then show ?thesis by (simp add: unat_sub)
qed

lemma fib_iter_eq: "fib_iter n (int (fib m)) (int (fib (Suc m))) = int (fib (n + m))"
proof (induction n arbitrary: m)
  case 0
  show ?case by simp
next
  case (Suc n)
  have "fib_iter (Suc n) (int (fib m)) (int (fib (Suc m)))
      = fib_iter n (int (fib (Suc m))) (int (fib (Suc (Suc m))))"
    by (simp add: add.commute)
  also have "\<dots> = int (fib (n + Suc m))" by (rule Suc.IH)
  finally show ?case by simp
qed

lemma fib_fast: "int (fib n) = fib_iter n 0 1"
  using fib_iter_eq [of n 0] by simp

lemma fib_Suc_mono: "fib n \<le> fib (Suc n)"
  by (induction n rule: fib.induct) simp_all

lemma fib_mono: "m \<le> n \<Longrightarrow> fib m \<le> fib n"
  by (rule lift_Suc_mono_le [of fib]) (simp_all add: fib_Suc_mono)

lemma fib_18: "fib 18 = 2584"
proof -
  have "fib_iter 18 0 1 = 2584" by code_simp
  then have "int (fib 18) = 2584" by (simp only: fib_fast)
  then show ?thesis by simp
qed

lemma fib_19: "fib 19 = 4181"
proof -
  have "fib_iter 19 0 1 = 4181" by code_simp
  then have "int (fib 19) = 4181" by (simp only: fib_fast)
  then show ?thesis by simp
qed

lemma fib_45: "fib 45 = 1134903170"
proof -
  have "fib_iter 45 0 1 = 1134903170" by code_simp
  then have "int (fib 45) = 1134903170" by (simp only: fib_fast)
  then show ?thesis by simp
qed

lemma fib_46: "fib 46 = 1836311903"
proof -
  have "fib_iter 46 0 1 = 1836311903" by code_simp
  then have "int (fib 46) = 1836311903" by (simp only: fib_fast)
  then show ?thesis by simp
qed

lemma fib_47: "fib 47 = 2971215073"
proof -
  have "fib_iter 47 0 1 = 2971215073" by code_simp
  then have "int (fib 47) = 2971215073" by (simp only: fib_fast)
  then show ?thesis by simp
qed

lemma Fibonacci_rec:
  "x \<noteq> 0 \<Longrightarrow> x \<noteq> 1 \<Longrightarrow> Fibonacci x = Fibonacci (x - 1) + Fibonacci (x - 2)"
  by (subst Fibonacci.simps) simp

lemma Fibonacci_0: "Fibonacci 0 = 0"
  by (simp add: Fibonacci.simps [of 0])

lemma Fibonacci_1: "Fibonacci 1 = 1"
  by (simp add: Fibonacci.simps [of 1])

lemma Fibonacci_fib: "Fibonacci x = of_nat (fib (unat x))"
proof (induction x rule: Fibonacci.induct)
  case (1 x)
  consider "x = 0" | "x = 1" | "x \<noteq> 0" "x \<noteq> 1" by blast
  then show ?case
  proof cases
    case 1
    then show ?thesis by (simp add: Fibonacci_0)
  next
    case 2
    then show ?thesis by (simp add: Fibonacci_1)
  next
    case 3
    then have nz: "x \<noteq> 0" and no: "x \<noteq> 1" by simp_all
    define k where "k = unat x - 2"
    have k: "unat x = Suc (Suc k)"
      using ne01_ge2 [OF nz no] unfolding k_def by arith
    have p1: "unat (x - 1) = Suc k" using k nz by (simp add: unat_pred)
    have p2: "unat (x - 2) = k" using k nz no by (simp add: unat_pred2)
    have "Fibonacci x = Fibonacci (x - 1) + Fibonacci (x - 2)"
      using nz no by (rule Fibonacci_rec)
    also have "\<dots> = of_nat (fib (Suc k)) + of_nat (fib k)"
      using "1.IH" nz no by (simp add: p1 p2)
    also have "\<dots> = of_nat (fib (unat x))" by (simp add: k)
    finally show ?thesis .
  qed
qed

lemma Fibonacci_45: "Fibonacci 45 = 1134903170"
  by (simp add: Fibonacci_fib fib_45)

lemma Fibonacci_46: "Fibonacci 46 = 1836311903"
  by (simp add: Fibonacci_fib fib_46)

lemma Fibonacci_47: "Fibonacci 47 = 2971215073"
  by (simp add: Fibonacci_fib fib_47)

lemma length_Fibonacci_evals: "length (Fibonacci_evals x) = 2 * fib (Suc (unat x)) - 1"
proof (induction x rule: Fibonacci_evals.induct)
  case (1 x)
  consider "x = 0" | "x = 1" | "x \<noteq> 0" "x \<noteq> 1" by blast
  then show ?case
  proof cases
    case 1
    then show ?thesis by (simp add: Fibonacci_evals.simps [of 0])
  next
    case 2
    then show ?thesis by (simp add: Fibonacci_evals.simps [of 1])
  next
    case 3
    then have nz: "x \<noteq> 0" and no: "x \<noteq> 1" by simp_all
    define k where "k = unat x - 2"
    have k: "unat x = Suc (Suc k)"
      using ne01_ge2 [OF nz no] unfolding k_def by arith
    have p1: "unat (x - 1) = Suc k" using k nz by (simp add: unat_pred)
    have p2: "unat (x - 2) = k" using k nz no by (simp add: unat_pred2)
    have pos: "1 \<le> fib (Suc k)" using fib_mono [of 1 "Suc k"] by simp
    have "Fibonacci_evals x = x # Fibonacci_evals (x - 1) @ Fibonacci_evals (x - 2)"
      using nz no by (subst Fibonacci_evals.simps) simp
    then have "length (Fibonacci_evals x) =
        1 + (2 * fib (Suc (Suc (Suc k))) - 1 - 1) "
      using "1.IH" nz no pos by (simp add: p1 p2)
    then show ?thesis using pos by (simp add: k)
  qed
qed

subsection \<open>Conversions between the two integer types\<close>

lemma size_as_int_small:
  assumes "length results < 2 ^ 31"
  shows "scast (size_as_int results) = (of_nat (length results) :: size_t)"
proof -
  let ?n = "length results"
  have "?n < 2 ^ 64" using assms by (rule less_trans) simp
  then have a: "take_bit 64 ?n = ?n" by (simp add: take_bit_nat_eq_self)
  have "int ?n < 2 ^ 31" using assms by simp
  then have b: "signed_take_bit 31 (int ?n) = int ?n"
    by (simp add: signed_take_bit_int_eq_self)
  show ?thesis by (simp add: size_as_int_def unsigned_of_nat signed_of_nat a b)
qed

lemma hit_iff:
  assumes "length results < 2 ^ 31"
  shows "(x :: size_t) < scast (size_as_int results) \<longleftrightarrow> unat x < length results"
proof -
  have "length results < 2 ^ 64" using assms by (rule less_trans) simp
  then have "unat (of_nat (length results) :: size_t) = length results"
    by (simp add: unat_of_nat)
  then show ?thesis
    by (simp add: size_as_int_small [OF assms] word_less_nat_alt)
qed

lemma through_int_small:
  assumes "v < 2 ^ 31"
  shows "through_int (of_nat v) = of_nat v"
proof -
  have "v < 2 ^ 64" using assms by (rule less_trans) simp
  then have a: "take_bit 64 v = v" by (simp add: take_bit_nat_eq_self)
  have "int v < 2 ^ 31" using assms by simp
  then have b: "signed_take_bit 31 (int v) = int v"
    by (simp add: signed_take_bit_int_eq_self)
  show ?thesis by (simp add: through_int_def unsigned_of_nat signed_of_nat a b)
qed

lemma take_bit_32_64_add:
  "take_bit 32 (take_bit 64 a + take_bit 64 b) = take_bit 32 (a + b :: int)"
proof -
  have "take_bit 32 (take_bit 64 a + take_bit 64 b)
      = take_bit 32 (take_bit 32 (take_bit 64 a) + take_bit 32 (take_bit 64 b))"
    by (simp only: take_bit_add)
  also have "\<dots> = take_bit 32 (take_bit 32 a + take_bit 32 b)"
    by (simp add: take_bit_take_bit)
  also have "\<dots> = take_bit 32 (a + b)"
    by (simp only: take_bit_add)
  finally show ?thesis .
qed

lemma narrow_add: "(ucast (a + b :: size_t) :: cint) = ucast a + ucast b"
  by transfer (simp add: take_bit_32_64_add)

lemma narrow_widen: "(ucast (scast (w :: cint) :: size_t) :: cint) = w"
  by (rule bit_word_eqI) (auto simp: bit_simps)

lemma through_int_add: "through_int (through_int a + through_int b) = through_int (a + b)"
  by (simp add: through_int_def narrow_add narrow_widen)

lemma through_int_Fibonacci:
  assumes "unat x \<le> 46"
  shows "through_int (Fibonacci x) = Fibonacci x"
proof -
  have "fib (unat x) \<le> fib 46" using assms by (rule fib_mono)
  then have "fib (unat x) < 2 ^ 31" by (simp add: fib_46)
  then show ?thesis by (simp add: Fibonacci_fib through_int_small)
qed

lemma through_int_47: "through_int 2971215073 = 18446744072385799393"
  by (simp add: through_int_def)

subsection \<open>The three cases of a call on a vector of fewer than \<open>2 ^ 31\<close> entries\<close>

lemma memo_hit:
  assumes "length results < 2 ^ 31" and "unat x < length results"
  shows "Fibonacci_memoized_version x results = (Inr (scast (results ! unat x)), results)"
  using assms by (simp add: Fibonacci_memoized_version_def hit_iff subscript_def)

lemma memo_miss:
  assumes "length results < 2 ^ 31" and "unat x = length results"
  shows "Fibonacci_memoized_version x results =
    (Inr (through_int (Fibonacci (x - 1) + Fibonacci (x - 2))),
     results @ [ucast (Fibonacci (x - 1) + Fibonacci (x - 2))])"
  using assms
  by (simp add: Fibonacci_memoized_version_def hit_iff subscript_def push_back_def
      through_int_def Let_def)

lemma memo_beyond:
  assumes "length results < 2 ^ 31" and "length results < unat x"
  shows "Fibonacci_memoized_version x results =
    (Inl OutOfRange, results @ [ucast (Fibonacci (x - 1) + Fibonacci (x - 2))])"
  using assms
  by (simp add: Fibonacci_memoized_version_def hit_iff subscript_def push_back_def Let_def)

lemma memo_prefix: "prefix results (snd (Fibonacci_memoized_version x results))"
  by (simp add: Fibonacci_memoized_version_def push_back_def Let_def)

lemma run_prefix: "prefix results (snd (run xs results))"
proof (induction xs arbitrary: results)
  case Nil
  show ?case by simp
next
  case (Cons x xs)
  obtain r results' where step: "Fibonacci_memoized_version x results = (r, results')"
    by (cases "Fibonacci_memoized_version x results")
  have p: "prefix results results'"
    using memo_prefix [of results x] by (simp add: step)
  show ?case
  proof (cases r)
    case (Inl e)
    then show ?thesis using p by (simp add: step)
  next
    case (Inr v)
    have "prefix results' (snd (run xs results'))" by (rule Cons.IH)
    with p have "prefix results (snd (run xs results'))" by (rule prefix_order.trans)
    then show ?thesis using Inr by (auto simp: step split: prod.splits)
  qed
qed

subsection \<open>Well-filled vectors\<close>

lemma fib_cache_Suc: "fib_cache (Suc n) = fib_cache n @ [ucast (Fibonacci (of_nat n))]"
  by (simp add: fib_cache_def)

lemma fib_cache_nth: "i < n \<Longrightarrow> fib_cache n ! i = ucast (Fibonacci (of_nat i))"
  by (simp add: fib_cache_def)

lemma length_fib_cache: "length (fib_cache n) = n"
  by (simp add: fib_cache_def)

lemma fresh_fib_cache: "fresh = fib_cache 2"
  by (simp add: fresh_def fib_cache_def Fibonacci_0 Fibonacci_1 numeral_2_eq_2)

lemma cache_ok_fib_cache: "2 \<le> n \<Longrightarrow> cache_ok (fib_cache n)"
  by (simp add: cache_ok_def length_fib_cache)

lemma cache_ok_fresh: "cache_ok fresh"
  by (simp add: fresh_fib_cache cache_ok_fib_cache)

lemma memo_ok:
  assumes ok: "cache_ok results" and len: "length results < 2 ^ 31"
    and le: "unat x \<le> length results"
  shows "Fibonacci_memoized_version x results =
    (Inr (through_int (Fibonacci x)),
     if unat x < length results then results else fib_cache (Suc (length results)))"
proof (cases "unat x < length results")
  case True
  have "results ! unat x = fib_cache (length results) ! unat x"
    using ok by (simp add: cache_ok_def)
  also have "\<dots> = ucast (Fibonacci x)"
    using True by (simp add: fib_cache_nth)
  finally show ?thesis
    using True by (simp add: memo_hit [OF len True] through_int_def)
next
  case False
  with le have eq: "unat x = length results" by simp
  have "2 \<le> unat x" using ok eq by (simp add: cache_ok_def)
  then have nz: "x \<noteq> 0" and no: "x \<noteq> 1" by auto
  have rec: "Fibonacci (x - 1) + Fibonacci (x - 2) = Fibonacci x"
    using Fibonacci_rec [OF nz no] by simp
  have "of_nat (length results) = x" using eq [symmetric] by simp
  then have "fib_cache (Suc (length results)) = results @ [ucast (Fibonacci x)]"
    using ok by (simp add: fib_cache_Suc cache_ok_def)
  then show ?thesis
    using False by (simp add: memo_miss [OF len eq] rec)
qed

lemma run_in_order:
  "2 \<le> k \<Longrightarrow> k + m \<le> 2 ^ 31 \<Longrightarrow>
   run (map of_nat [k..<k + m]) (fib_cache k) =
     (map (\<lambda>i. Inr (through_int (Fibonacci (of_nat i)))) [k..<k + m], fib_cache (k + m))"
proof (induction m arbitrary: k)
  case 0
  show ?case by simp
next
  case (Suc m)
  have e: "k + Suc m = Suc k + m" by simp
  have up: "[k..<Suc k + m] = k # [Suc k..<Suc k + m]"
    by (simp add: upt_conv_Cons)
  have k31: "k < 2 ^ 31" using Suc.prems by simp
  then have "k < 2 ^ 64" by (rule less_trans) simp
  then have un: "unat (of_nat k :: size_t) = k" by (simp add: unat_of_nat)
  have ok: "cache_ok (fib_cache k)" using Suc.prems by (simp add: cache_ok_fib_cache)
  have step: "Fibonacci_memoized_version (of_nat k) (fib_cache k) =
      (Inr (through_int (Fibonacci (of_nat k))), fib_cache (Suc k))"
    using memo_ok [OF ok, of "of_nat k"] k31 by (simp add: length_fib_cache un)
  have ih: "run (map of_nat [Suc k..<Suc k + m]) (fib_cache (Suc k)) =
     (map (\<lambda>i. Inr (through_int (Fibonacci (of_nat i)))) [Suc k..<Suc k + m],
      fib_cache (Suc k + m))"
    using Suc.prems by (intro Suc.IH) simp_all
  have "run (map of_nat (k # [Suc k..<Suc k + m])) (fib_cache k) =
     (map (\<lambda>i. Inr (through_int (Fibonacci (of_nat i)))) (k # [Suc k..<Suc k + m]),
      fib_cache (Suc k + m))"
    by (simp only: list.map run.simps step ih prod.case sum.case)
  then show ?case unfolding e by (simp only: up)
qed

lemma run_from_fresh:
  assumes "2 \<le> n" and "n \<le> 2 ^ 31"
  shows "snd (run (map of_nat [2..<n]) fresh) = fib_cache n"
proof -
  obtain m where n: "n = 2 + m" using assms(1) by (auto simp: le_iff_add)
  have "run (map of_nat [2..<2 + m]) (fib_cache 2) =
     (map (\<lambda>i. Inr (through_int (Fibonacci (of_nat i)))) [2..<2 + m], fib_cache (2 + m))"
    using assms(2) by (intro run_in_order) (simp_all add: n)
  then show ?thesis by (simp add: n fresh_fib_cache)
qed

subsection \<open>Counting the invocations of the naive recursion\<close>

lemma fib_Suc_pos: "1 \<le> fib (Suc k)"
  using fib_mono [of 1 "Suc k"] by simp

lemma fib_4: "fib 4 = 3"
proof -
  have "fib_iter 4 0 1 = 3" by code_simp
  then have "int (fib 4) = 3" by (simp only: fib_fast)
  then show ?thesis by simp
qed

lemma fib_15: "fib 15 = 610"
proof -
  have "fib_iter 15 0 1 = 610" by code_simp
  then have "int (fib 15) = 610" by (simp only: fib_fast)
  then show ?thesis by simp
qed

lemma fib_22: "fib 22 = 17711"
proof -
  have "fib_iter 22 0 1 = 17711" by code_simp
  then have "int (fib 22) = 17711" by (simp only: fib_fast)
  then show ?thesis by simp
qed

lemma naive_loop_calls:
  "n \<le> 2 ^ 64 \<Longrightarrow>
   int (length (concat (map Fibonacci_evals (map of_nat [0..<n])))) =
     2 * (int (fib (n + 2)) - 1) - int n"
proof (induction n)
  case 0
  show ?case by simp
next
  case (Suc n)
  have "n < 2 ^ 64" using Suc.prems by simp
  then have un: "unat (of_nat n :: size_t) = n" by (simp add: unat_of_nat)
  have here: "int (length (Fibonacci_evals (of_nat n))) = 2 * int (fib (Suc n)) - 1"
    using fib_Suc_pos [of n] by (simp add: length_Fibonacci_evals un of_nat_diff)
  have ih: "int (length (concat (map Fibonacci_evals (map of_nat [0..<n])))) =
     2 * (int (fib (n + 2)) - 1) - int n"
    using Suc.prems by (intro Suc.IH) simp
  have "int (length (concat (map Fibonacci_evals (map of_nat [0..<Suc n])))) =
      (2 * (int (fib (n + 2)) - 1) - int n) + (2 * int (fib (Suc n)) - 1)"
    using ih here by simp
  then show ?case by simp
qed

lemma naive_loop: "length (concat (map Fibonacci_evals (map of_nat [0..<13]))) = 1205"
proof -
  have s1: "int (length (concat (map Fibonacci_evals (map of_nat [0..<13])))) =
      2 * (int (fib (13 + 2)) - 1) - int 13"
    by (rule naive_loop_calls) simp
  have s2: "2 * (int (fib (13 + 2)) - 1) - int 13 = int 1205"
    by (simp add: fib_15)
  have "int (length (concat (map Fibonacci_evals (map of_nat [0..<13])))) = int 1205"
    by (rule trans [OF s1 s2])
  then show ?thesis by (simp only: of_nat_eq_iff)
qed

lemma length_memoized_evals_miss:
  assumes len: "length results < 2 ^ 31" and eq: "unat x = length results"
    and x2: "2 \<le> unat x"
  shows "int (length (memoized_evals x results)) = 2 * int (fib (Suc (unat x))) - 2"
proof -
  have nz: "x \<noteq> 0" and no: "x \<noteq> 1" using x2 by auto
  define k where "k = unat x - 2"
  have k: "unat x = Suc (Suc k)" using x2 unfolding k_def by arith
  have p1: "unat (x - 1) = Suc k" using k nz by (simp add: unat_pred)
  have p2: "unat (x - 2) = k" using k nz no by (simp add: unat_pred2)
  have miss: "memoized_evals x results = Fibonacci_evals (x - 1) @ Fibonacci_evals (x - 2)"
    using eq by (simp add: memoized_evals_def hit_iff [OF len])
  have a: "int (length (Fibonacci_evals (x - 1))) = 2 * int (fib (Suc (Suc k))) - 1"
    using fib_Suc_pos [of "Suc k"] by (simp add: length_Fibonacci_evals p1 of_nat_diff)
  have b: "int (length (Fibonacci_evals (x - 2))) = 2 * int (fib (Suc k)) - 1"
    using fib_Suc_pos [of k] by (simp add: length_Fibonacci_evals p2 of_nat_diff)
  show ?thesis by (simp add: miss a b k)
qed

lemma run_evals_in_order:
  "2 \<le> k \<Longrightarrow> k + m \<le> 2 ^ 31 \<Longrightarrow>
   int (length (run_evals (map of_nat [k..<k + m]) (fib_cache k))) =
     2 * (int (fib (k + m + 2)) - int (fib (k + 2))) - 2 * int m"
proof (induction m arbitrary: k)
  case 0
  show ?case by simp
next
  case (Suc m)
  have e: "k + Suc m = Suc k + m" by simp
  have up: "[k..<Suc k + m] = k # [Suc k..<Suc k + m]"
    by (simp add: upt_conv_Cons)
  have k31: "k < 2 ^ 31" using Suc.prems by simp
  then have "k < 2 ^ 64" by (rule less_trans) simp
  then have un: "unat (of_nat k :: size_t) = k" by (simp add: unat_of_nat)
  have ok: "cache_ok (fib_cache k)" using Suc.prems by (simp add: cache_ok_fib_cache)
  have step: "Fibonacci_memoized_version (of_nat k) (fib_cache k) =
      (Inr (through_int (Fibonacci (of_nat k))), fib_cache (Suc k))"
    using memo_ok [OF ok, of "of_nat k"] k31 by (simp add: length_fib_cache un)
  have here: "int (length (memoized_evals (of_nat k) (fib_cache k))) = 2 * int (fib (Suc k)) - 2"
    using length_memoized_evals_miss [of "fib_cache k" "of_nat k"] k31 Suc.prems(1)
    by (simp add: length_fib_cache un)
  have ih: "int (length (run_evals (map of_nat [Suc k..<Suc k + m]) (fib_cache (Suc k)))) =
     2 * (int (fib (Suc k + m + 2)) - int (fib (Suc k + 2))) - 2 * int m"
    using Suc.prems by (intro Suc.IH) simp_all
  have "run_evals (map of_nat (k # [Suc k..<Suc k + m])) (fib_cache k) =
      memoized_evals (of_nat k) (fib_cache k) @
      run_evals (map of_nat [Suc k..<Suc k + m]) (fib_cache (Suc k))"
    by (simp only: list.map run_evals.simps step prod.case sum.case)
  then have "int (length (run_evals (map of_nat [k..<Suc k + m]) (fib_cache k))) =
      (2 * int (fib (Suc k)) - 2) +
      (2 * (int (fib (Suc k + m + 2)) - int (fib (Suc k + 2))) - 2 * int m)"
    by (simp only: up [symmetric] length_append of_nat_add here ih)
  then show ?case unfolding e by simp
qed

lemma memo_loop: "length (run_evals (map of_nat [0..<20]) fresh) = 35380"
proof -
  have split: "map of_nat [0..<20] = (0 :: size_t) # 1 # map of_nat [2..<2 + 18]"
    by (simp add: upt_conv_Cons)
  have h0: "Fibonacci_memoized_version 0 fresh = (Inr 0, fresh)" by code_simp
  have h1: "Fibonacci_memoized_version 1 fresh = (Inr 1, fresh)" by code_simp
  have e0: "memoized_evals 0 fresh = []" by code_simp
  have e1: "memoized_evals 1 fresh = []" by code_simp
  have r: "run_evals ((0 :: size_t) # 1 # map of_nat [2..<2 + 18]) fresh =
      run_evals (map of_nat [2..<2 + 18]) fresh"
    by (simp only: run_evals.simps h0 h1 e0 e1 prod.case sum.case append_Nil)
  have s1: "int (length (run_evals (map of_nat [2..<2 + 18]) (fib_cache 2))) =
      2 * (int (fib (2 + 18 + 2)) - int (fib (2 + 2))) - 2 * int 18"
    by (rule run_evals_in_order) simp_all
  have s2: "2 * (int (fib (2 + 18 + 2)) - int (fib (2 + 2))) - 2 * int 18 = int 35380"
    by (simp add: fib_4 fib_22)
  have "int (length (run_evals (map of_nat [2..<2 + 18]) (fib_cache 2))) = int 35380"
    by (rule trans [OF s1 s2])
  then have "length (run_evals (map of_nat [2..<2 + 18]) fresh) = 35380"
    by (simp only: of_nat_eq_iff fresh_fib_cache)
  then show ?thesis by (simp only: split r)
qed

subsection \<open>Calls with an argument at most the size\<close>

lemma memo_twice_in_range:
  assumes "Suc (length results) < 2 ^ 31" and "unat x \<le> length results"
  shows "\<exists>v results'. Fibonacci_memoized_version x results = (Inr v, results') \<and>
    Fibonacci_memoized_version x results' = (Inr v, results')"
proof (cases "unat x < length results")
  case True
  have len: "length results < 2 ^ 31" using assms(1) by simp
  show ?thesis by (simp add: memo_hit [OF len True])
next
  case False
  with assms(2) have eq: "unat x = length results" by simp
  have len: "length results < 2 ^ 31" using assms(1) by simp
  let ?v = "ucast (Fibonacci (x - 1) + Fibonacci (x - 2)) :: cint"
  have len': "length (results @ [?v]) < 2 ^ 31" using assms(1) by simp
  have in': "unat x < length (results @ [?v])" using eq by simp
  have "Fibonacci_memoized_version x (results @ [?v]) =
      (Inr (scast ((results @ [?v]) ! unat x)), results @ [?v])"
    by (rule memo_hit [OF len' in'])
  then show ?thesis
    by (simp add: memo_miss [OF len eq] eq through_int_def)
qed

lemma keys_in_range:
  assumes "length results < 2 ^ 31" and "unat x \<le> length results"
  shows "keys results \<subseteq> keys (snd (Fibonacci_memoized_version x results)) \<and>
    {0..unat x} \<subseteq> keys (snd (Fibonacci_memoized_version x results))"
proof (cases "unat x < length results")
  case True
  then show ?thesis by (auto simp: memo_hit [OF assms(1) True] keys_def)
next
  case False
  with assms(2) have eq: "unat x = length results" by simp
  show ?thesis by (auto simp: memo_miss [OF assms(1) eq] keys_def eq)
qed

subsection \<open>The bounded call stack\<close>

text \<open>
  The recursion on \<open>x\<close> is \<open>x\<close> frames deep. With that many frames it returns what the
  function without a stack returns, and with fewer it exhausts the stack.
\<close>

lemma Fibonacci_stack_overflow: "d < unat x \<Longrightarrow> Fibonacci_stack d x = Inl StackOverflow"
proof (induction d arbitrary: x)
  case 0
  show ?case by simp
next
  case (Suc d)
  have x2: "2 \<le> unat x" using Suc.prems by simp
  then have nz: "x \<noteq> 0" and no: "x \<noteq> 1" by auto
  have "d < unat (x - 1)" using Suc.prems nz by (simp add: unat_pred)
  then have "Fibonacci_stack d (x - 1) = Inl StackOverflow" by (rule Suc.IH)
  then show ?case using nz no by simp
qed

lemma Fibonacci_stack_enough:
  "1 \<le> d \<Longrightarrow> unat x \<le> d \<Longrightarrow> Fibonacci_stack d x = Inr (Fibonacci x)"
proof (induction d arbitrary: x)
  case 0
  then show ?case by simp
next
  case (Suc d)
  consider "x = 0" | "x = 1" | "x \<noteq> 0" "x \<noteq> 1" by blast
  then show ?case
  proof cases
    case 1
    then show ?thesis by (simp add: Fibonacci_0)
  next
    case 2
    then show ?thesis by (simp add: Fibonacci_1)
  next
    case 3
    then have nz: "x \<noteq> 0" and no: "x \<noteq> 1" by simp_all
    have x2: "2 \<le> unat x" using nz no by (rule ne01_ge2)
    then have d1: "1 \<le> d" using Suc.prems by simp
    have u1: "unat (x - 1) \<le> d" using Suc.prems x2 nz by (simp add: unat_pred)
    have u2: "unat (x - 2) \<le> d" using Suc.prems x2 nz no by (simp add: unat_pred2)
    have a: "Fibonacci_stack d (x - 1) = Inr (Fibonacci (x - 1))"
      using d1 u1 by (rule Suc.IH)
    have b: "Fibonacci_stack d (x - 2) = Inr (Fibonacci (x - 2))"
      using d1 u2 by (rule Suc.IH)
    show ?thesis using nz no Fibonacci_rec [OF nz no] by (simp add: a b)
  qed
qed

lemma Fibonacci_stack_error: "Fibonacci_stack d x = Inl e \<Longrightarrow> e = StackOverflow"
proof (induction d arbitrary: x e)
  case 0
  then show ?case by simp
next
  case (Suc d)
  then show ?case
    by (auto split: if_splits sum.splits)
qed

lemma memo_stack_enough:
  assumes "2 \<le> unat x" and "unat x \<le> Suc d"
  shows "Fibonacci_memoized_version_stack d x results = Fibonacci_memoized_version x results"
proof -
  have nz: "x \<noteq> 0" and no: "x \<noteq> 1" using assms(1) by auto
  have d1: "1 \<le> d" using assms by simp
  have u1: "unat (x - 1) \<le> d" using assms nz by (simp add: unat_pred)
  have u2: "unat (x - 2) \<le> d" using assms nz no by (simp add: unat_pred2)
  show ?thesis
    by (simp add: Fibonacci_memoized_version_stack_def Fibonacci_memoized_version_def
        Fibonacci_stack_enough [OF d1 u1] Fibonacci_stack_enough [OF d1 u2])
qed

lemma memo_stack_overflow:
  assumes len: "length results < 2 ^ 31" and miss: "length results \<le> unat x"
    and deep: "Suc d < unat x"
  shows "Fibonacci_memoized_version_stack d x results = (Inl StackOverflow, results)"
proof -
  have nz: "x \<noteq> 0" using deep by auto
  have "d < unat (x - 1)" using deep nz by (simp add: unat_pred)
  then have "Fibonacci_stack d (x - 1) = Inl StackOverflow"
    by (rule Fibonacci_stack_overflow)
  then show ?thesis
    using miss by (simp add: Fibonacci_memoized_version_stack_def hit_iff [OF len])
qed

lemma memo_stack_error:
  "fst (Fibonacci_memoized_version_stack d x results) = Inl e \<Longrightarrow>
   e = OutOfRange \<or> e = StackOverflow"
  by (auto simp: Fibonacci_memoized_version_stack_def subscript_def Let_def
      split: if_splits sum.splits dest: Fibonacci_stack_error)

lemma unat_of_negative:
  assumes "- (2 ^ 63) \<le> n" and "n < 0"
  shows "2 ^ 63 \<le> unat (of_int n :: size_t)"
proof -
  have "n mod 2 ^ 64 = (n + 2 ^ 64) mod 2 ^ 64" by simp
  also have "\<dots> = n + 2 ^ 64" using assms by (intro mod_pos_pos_trivial) simp_all
  finally have "uint (of_int n :: size_t) = n + 2 ^ 64" by (simp add: uint_word_of_int)
  then have "unat (of_int n :: size_t) = nat (n + 2 ^ 64)" by (simp add: unat_eq_nat_uint)
  then show ?thesis using assms by simp
qed

subsection \<open>One element at most for a call\<close>

text \<open>
  A call adds one element at most, and with a bounded stack it adds one only where the
  stack held the recursion on \<open>x - 1\<close>.
\<close>

lemma push_needs_stack:
  "snd (Fibonacci_memoized_version_stack d x results) \<noteq> results \<Longrightarrow> unat (x - 1) \<le> d"
proof (rule ccontr)
  assume changed: "snd (Fibonacci_memoized_version_stack d x results) \<noteq> results"
  assume "\<not> unat (x - 1) \<le> d"
  then have "d < unat (x - 1)" by simp
  then have "Fibonacci_stack d (x - 1) = Inl StackOverflow"
    by (rule Fibonacci_stack_overflow)
  then have "snd (Fibonacci_memoized_version_stack d x results) = results"
    by (simp add: Fibonacci_memoized_version_stack_def)
  with changed show False by simp
qed

lemma run_length: "length (snd (run xs results)) \<le> length results + length xs"
proof (induction xs arbitrary: results)
  case Nil
  show ?case by simp
next
  case (Cons x xs)
  obtain r results' where step: "Fibonacci_memoized_version x results = (r, results')"
    by (cases "Fibonacci_memoized_version x results")
  have l: "length results' \<le> Suc (length results)"
    using step by (auto simp: Fibonacci_memoized_version_def push_back_def Let_def split: if_splits)
  show ?case
  proof (cases r)
    case (Inl e)
    then show ?thesis using l by (simp add: step)
  next
    case (Inr v)
    have "length (snd (run xs results')) \<le> length results' + length xs" by (rule Cons.IH)
    then show ?thesis using Inr l by (auto simp: step split: prod.splits)
  qed
qed

section \<open>The properties\<close>

subsection \<open>The recurrence\<close>

text \<open>
  C1, as stated, fails on the values the calls return: with entries 0 to 46 in the
  vector (the calls with 2, 3, ..., 46 in index order on a fresh evaluator leave it so),
  the calls with 46, 45 and 47 return 1836311903, 1134903170 and 18446744072385799393.
  The entry for 47 is \<open>2971215073\<close> narrowed to the 32-bit \<^verbatim>\<open>int\<close> of the vector,
  which is negative, and is sign-extended on return: it is not the sum of the other two.
\<close>

theorem recurrence_breaks_at_47:
  "snd (run (map of_nat [2..<47]) fresh) = fib_cache 47 \<and>
   run [46, 45, 47] (fib_cache 47) =
     ([Inr 1836311903, Inr 1134903170, Inr 18446744072385799393], fib_cache 48) \<and>
   (18446744072385799393 :: size_t) \<noteq> 1836311903 + 1134903170"
proof -
  have a: "snd (run (map of_nat [2..<47]) fresh) = fib_cache 47"
    by (rule run_from_fresh) simp_all
  have ok: "cache_ok (fib_cache 47)" by (simp add: cache_ok_fib_cache)
  have t45: "through_int 1134903170 = 1134903170" by (simp add: through_int_def)
  have t46: "through_int 1836311903 = 1836311903" by (simp add: through_int_def)
  have s46: "Fibonacci_memoized_version 46 (fib_cache 47) = (Inr 1836311903, fib_cache 47)"
    by (subst memo_ok [OF ok]) (simp_all add: length_fib_cache t46 Fibonacci_46)
  have s45: "Fibonacci_memoized_version 45 (fib_cache 47) = (Inr 1134903170, fib_cache 47)"
    by (subst memo_ok [OF ok]) (simp_all add: length_fib_cache t45 Fibonacci_45)
  have s47: "Fibonacci_memoized_version 47 (fib_cache 47) =
      (Inr 18446744072385799393, fib_cache 48)"
    by (subst memo_ok [OF ok]) (simp_all add: length_fib_cache Fibonacci_47 through_int_47)
  have b: "run [46, 45, 47] (fib_cache 47) =
     ([Inr 1836311903, Inr 1134903170, Inr 18446744072385799393], fib_cache 48)"
    by (simp add: s46 s45 s47)
  have c: "(18446744072385799393 :: size_t) \<noteq> 1836311903 + 1134903170" by simp
  show ?thesis by (intro conjI a b c)
qed

text \<open>
  C1, amended. On a well-filled vector of fewer than \<open>2 ^ 31\<close> entries, the call
  with 0 returns 0, the call with 1 returns 1, and for every \<open>x\<close> from 2 up to the size
  of the vector the calls with \<open>x - 1\<close> and \<open>x - 2\<close> return values \<open>a\<close> and \<open>b\<close> from
  the cache, leaving it as it is, and the call with \<open>x\<close> returns \<open>a + b\<close> narrowed to
  \<^verbatim>\<open>int\<close> and converted back to \<^verbatim>\<open>size_t\<close>; this is \<open>a + b\<close> itself for \<open>x\<close> up to
  46. Calls with \<open>x\<close> beyond the size of the vector are left out.
\<close>

theorem memo_recurrence:
  assumes ok: "cache_ok results" and len: "length results < 2 ^ 31"
    and nz: "x \<noteq> 0" and no: "x \<noteq> 1" and le: "unat x \<le> length results"
  shows "fst (Fibonacci_memoized_version 0 results) = Inr 0 \<and>
    fst (Fibonacci_memoized_version 1 results) = Inr 1 \<and>
    (\<exists>a b. Fibonacci_memoized_version (x - 1) results = (Inr a, results) \<and>
       Fibonacci_memoized_version (x - 2) results = (Inr b, results) \<and>
       fst (Fibonacci_memoized_version x results) = Inr (through_int (a + b)) \<and>
       (unat x \<le> 46 \<longrightarrow> fst (Fibonacci_memoized_version x results) = Inr (a + b)))"
proof -
  have l2: "2 \<le> length results" using ok by (simp add: cache_ok_def)
  have x2: "2 \<le> unat x" using nz no by (rule ne01_ge2)
  have t0: "through_int 0 = 0" by (simp add: through_int_def)
  have t1: "through_int 1 = 1" by (simp add: through_int_def)
  have c0: "fst (Fibonacci_memoized_version 0 results) = Inr 0"
    using l2 by (subst memo_ok [OF ok len]) (simp_all add: t0 Fibonacci_0)
  have c1: "fst (Fibonacci_memoized_version 1 results) = Inr 1"
    using l2 by (subst memo_ok [OF ok len]) (simp_all add: t1 Fibonacci_1)
  let ?a = "through_int (Fibonacci (x - 1))" and ?b = "through_int (Fibonacci (x - 2))"
  have u1: "unat (x - 1) < length results" using le x2 nz by (simp add: unat_pred)
  have u2: "unat (x - 2) < length results" using le x2 nz no by (simp add: unat_pred2)
  have ca: "Fibonacci_memoized_version (x - 1) results = (Inr ?a, results)"
    using u1 by (subst memo_ok [OF ok len]) simp_all
  have cb: "Fibonacci_memoized_version (x - 2) results = (Inr ?b, results)"
    using u2 by (subst memo_ok [OF ok len]) simp_all
  have "through_int (?a + ?b) = through_int (Fibonacci (x - 1) + Fibonacci (x - 2))"
    by (rule through_int_add)
  also have "\<dots> = through_int (Fibonacci x)"
    using Fibonacci_rec [OF nz no] by simp
  finally have sum: "through_int (?a + ?b) = through_int (Fibonacci x)" .
  have cx: "fst (Fibonacci_memoized_version x results) = Inr (through_int (?a + ?b))"
    by (simp add: memo_ok [OF ok len le] sum)
  have small: "fst (Fibonacci_memoized_version x results) = Inr (?a + ?b)" if s: "unat x \<le> 46"
  proof -
    have "unat (x - 1) \<le> 46" using s nz by (simp add: unat_pred)
    then have a: "?a = Fibonacci (x - 1)" by (rule through_int_Fibonacci)
    have "unat (x - 2) \<le> 46" using s nz no by (simp add: unat_pred2)
    then have b: "?b = Fibonacci (x - 2)" by (rule through_int_Fibonacci)
    have "?a + ?b = Fibonacci x" using Fibonacci_rec [OF nz no] by (simp add: a b)
    then show ?thesis
      by (simp add: memo_ok [OF ok len le] through_int_Fibonacci [OF s])
  qed
  from ca cb cx small have
    "\<exists>a b. Fibonacci_memoized_version (x - 1) results = (Inr a, results) \<and>
       Fibonacci_memoized_version (x - 2) results = (Inr b, results) \<and>
       fst (Fibonacci_memoized_version x results) = Inr (through_int (a + b)) \<and>
       (unat x \<le> 46 \<longrightarrow> fst (Fibonacci_memoized_version x results) = Inr (a + b))"
    by blast
  with c0 c1 show ?thesis by blast
qed

text \<open>
  The amended C1 at the fresh vector and \<open>x = 2\<close>.
\<close>

theorem memo_recurrence_witness:
  "cache_ok fresh \<and> length fresh < 2 ^ 31 \<and> (2 :: size_t) \<noteq> 0 \<and> (2 :: size_t) \<noteq> 1 \<and>
   unat (2 :: size_t) \<le> length fresh \<and>
   fst (Fibonacci_memoized_version 0 fresh) = Inr 0 \<and>
   fst (Fibonacci_memoized_version 1 fresh) = Inr 1 \<and>
   (\<exists>a b. Fibonacci_memoized_version (2 - 1) fresh = (Inr a, fresh) \<and>
      Fibonacci_memoized_version (2 - 2) fresh = (Inr b, fresh) \<and>
      fst (Fibonacci_memoized_version 2 fresh) = Inr (a + b))"
proof -
  have a: "length fresh < 2 ^ 31" by (simp add: fresh_def)
  have b: "(2 :: size_t) \<noteq> 0" by simp
  have c: "(2 :: size_t) \<noteq> 1" by simp
  have d: "unat (2 :: size_t) \<le> length fresh" by (simp add: fresh_def)
  have e: "unat (2 :: size_t) \<le> 46" by simp
  note t = memo_recurrence [OF cache_ok_fresh a b c d]
  have t0: "fst (Fibonacci_memoized_version 0 fresh) = Inr 0"
    using t by (rule conjunct1)
  have t1: "fst (Fibonacci_memoized_version 1 fresh) = Inr 1"
    using t by (rule conjunct2 [THEN conjunct1])
  have "\<exists>a b. Fibonacci_memoized_version (2 - 1) fresh = (Inr a, fresh) \<and>
      Fibonacci_memoized_version (2 - 2) fresh = (Inr b, fresh) \<and>
      fst (Fibonacci_memoized_version 2 fresh) = Inr (a + b)"
    using t [THEN conjunct2, THEN conjunct2] e by blast
  then show ?thesis by (intro conjI cache_ok_fresh a b c d t0 t1)
qed

subsection \<open>Evaluations on a miss\<close>

text \<open>
  C2. A miss does not reuse the cache: it runs the naive \<^verbatim>\<open>Fibonacci\<close> on \<open>x - 1\<close>
  and \<open>x - 2\<close>. After the calls with 0, 1, 2 and 3 on a fresh evaluator the vector holds
  the keys 0 to 3, and the call with 4 evaluates \<^verbatim>\<open>Fibonacci\<close> eight times, on 3, 2, 1,
  0, 1, 2, 1, 0: cached keys are computed again, key 1 three times in this one call.
  The call with 19 on the vector of the keys 0 to 18 makes 13528 evaluations. The first
  loop of \<^verbatim>\<open>main\<close>, thirteen calls of \<^verbatim>\<open>Fibonacci\<close>, makes 1205 invocations, the
  number its comment gives; the second loop, twenty calls of the memoized version, makes
  35380 invocations of \<^verbatim>\<open>Fibonacci\<close>, where its comment says that the memoized version
  makes 35 function calls.
\<close>

theorem miss_reruns_naive:
  "snd (run [0, 1, 2, 3] fresh) = [0, 1, 1, 2] \<and>
   memoized_evals 4 [0, 1, 1, 2] = [3, 2, 1, 0, 1, 2, 1, 0] \<and>
   length (memoized_evals 19 (fib_cache 19)) = 13528 \<and>
   length (concat (map Fibonacci_evals (map of_nat [0..<13]))) = 1205 \<and>
   length (run_evals (map of_nat [0..<20]) fresh) = 35380"
proof -
  have a: "snd (run [0, 1, 2, 3] fresh) = [0, 1, 1, 2]"
    by code_simp
  have b: "memoized_evals 4 [0, 1, 1, 2] = [3, 2, 1, 0, 1, 2, 1, 0]"
    by code_simp
  have "memoized_evals 19 (fib_cache 19) = Fibonacci_evals (19 - 1) @ Fibonacci_evals (19 - 2)"
    by (simp add: memoized_evals_def hit_iff length_fib_cache)
  then have c: "length (memoized_evals 19 (fib_cache 19)) = 13528"
    by (simp add: length_Fibonacci_evals fib_18 fib_19 eval_nat_numeral(3) [symmetric])
  show ?thesis by (intro conjI a b c naive_loop memo_loop)
qed

subsection \<open>Concrete scenarios\<close>

text \<open>
  C3. On a fresh evaluator the call with 10 misses, pushes \<open>Fibonacci 9 + Fibonacci 8 = 55\<close>
  as the third element and then reads element 10 of a vector of three: it does not
  return 55. Nor is a following call with 5, on the vector so left, served from the
  cache: it misses again, runs \<^verbatim>\<open>Fibonacci\<close> fourteen times, pushes 5 as the fourth
  element and reads element 5 of a vector of four.
\<close>

theorem fresh_10_then_5:
  "Fibonacci_memoized_version 10 fresh = (Inl OutOfRange, [0, 1, 55]) \<and>
   run [10, 5] fresh = ([Inl OutOfRange], [0, 1, 55]) \<and>
   Fibonacci_memoized_version 5 [0, 1, 55] = (Inl OutOfRange, [0, 1, 55, 5]) \<and>
   memoized_evals 5 [0, 1, 55] = [4, 3, 2, 1, 0, 1, 2, 1, 0, 3, 2, 1, 0, 1]"
  by code_simp

text \<open>
  C4. The calls with 0, 1, 2, 5 and 10, made in this order on a fresh evaluator: the
  first three return 0, 1 and 1; the call with 5 finds three elements, pushes 5 as the
  fourth and reads element 5, out of range, so that neither 5 nor 55 is returned.
\<close>

theorem run_0_1_2_5_10:
  "run [0, 1, 2, 5, 10] fresh = ([Inr 0, Inr 1, Inr 1, Inl OutOfRange], [0, 1, 1, 5])"
  by code_simp

subsection \<open>Growth of the cache\<close>

text \<open>
  C5. The keys after a call with \<open>n\<close> do not always include 0 to \<open>n\<close>: the call with
  10 on a fresh evaluator leaves the three-element vector 0, 1, 55, whose keys are 0, 1
  and 2.
\<close>

theorem keys_after_10:
  "snd (Fibonacci_memoized_version 10 fresh) = [0, 1, 55] \<and>
   keys (snd (Fibonacci_memoized_version 10 fresh)) = {0..<3} \<and>
   \<not> {0..10} \<subseteq> keys (snd (Fibonacci_memoized_version 10 fresh))"
proof -
  have a: "snd (Fibonacci_memoized_version 10 fresh) = [0, 1, 55]" by code_simp
  have b: "keys (snd (Fibonacci_memoized_version 10 fresh)) = {0..<3}"
    by (simp add: a keys_def numeral_3_eq_3)
  have "(10 :: nat) \<in> {0..10}" and "(10 :: nat) \<notin> {0..<3}" by simp_all
  then have c: "\<not> {0..10} \<subseteq> keys (snd (Fibonacci_memoized_version 10 fresh))"
    unfolding b by blast
  show ?thesis by (intro conjI a b c)
qed

text \<open>
  C6. Two calls with the same argument in succession: on a fresh evaluator the first
  call with 3 pushes 2 as the third element and reads element 3, out of range; the second
  finds three elements, misses again, pushes 2 once more and returns it. The first call
  returns no element of the vector, and the second call changes the cache.
\<close>

theorem twice_3:
  "Fibonacci_memoized_version 3 fresh = (Inl OutOfRange, [0, 1, 2]) \<and>
   Fibonacci_memoized_version 3 [0, 1, 2] = (Inr 2, [0, 1, 2, 2])"
  by code_simp

text \<open>
  C7. Cache write-once invariant: a call, and any sequence of calls, leaves the vector
  it found as a prefix of the vector it returns. Every key \<open>n\<close> populated before is
  populated after and holds the value it held; keys are only added.
\<close>

theorem cache_write_once:
  "n < length results \<Longrightarrow>
   prefix results (snd (Fibonacci_memoized_version x results)) \<and>
   prefix results (snd (run xs results)) \<and>
   n < length (snd (run xs results)) \<and> snd (run xs results) ! n = results ! n"
proof -
  assume n: "n < length results"
  have p: "prefix results (snd (run xs results))" by (rule run_prefix)
  then obtain ys where ys: "snd (run xs results) = results @ ys"
    by (auto simp: prefix_def)
  show ?thesis using n p by (simp add: memo_prefix ys nth_append)
qed

text \<open>
  C7 at the fresh vector, key 1 and the calls with 2 and 3.
\<close>

theorem cache_write_once_witness:
  "(1 :: nat) < length fresh \<and> prefix fresh (snd (run [2, 3] fresh)) \<and>
   snd (run [2, 3] fresh) ! 1 = fresh ! 1"
  using cache_write_once [of 1 fresh 2 "[2, 3]"] by (simp add: fresh_def)

subsection \<open>Errors\<close>

text \<open>
  C8, as stated, fails: the parameter is a \<^verbatim>\<open>size_t\<close>, so the argument \<open>-1\<close> arrives as
  \<open>18446744073709551615\<close>. On a fresh evaluator the call misses and enters
  \<^verbatim>\<open>Fibonacci(x - 1)\<close>, a recursion \<open>18446744073709551614\<close> frames deep: with a call
  stack of a million frames it ends in stack exhaustion before anything is pushed, the
  cache still at its two initial entries. It does not fail with \<open>InvalidArgument\<close>.
\<close>

theorem minus_one_exhausts_stack:
  "(of_int (- 1) :: size_t) = 18446744073709551615 \<and>
   Fibonacci_memoized_version_stack 1000000 18446744073709551615 fresh =
     (Inl StackOverflow, fresh) \<and>
   fst (Fibonacci_memoized_version_stack 1000000 18446744073709551615 fresh) \<noteq>
     Inl InvalidArgument"
proof -
  have a: "(of_int (- 1) :: size_t) = 18446744073709551615" by simp
  have len: "length fresh < 2 ^ 31" by (simp add: fresh_def)
  have miss: "length fresh \<le> unat (18446744073709551615 :: size_t)"
    by (simp add: fresh_def)
  have deep: "Suc 1000000 < unat (18446744073709551615 :: size_t)" by simp
  have b: "Fibonacci_memoized_version_stack 1000000 18446744073709551615 fresh =
      (Inl StackOverflow, fresh)"
    using len miss deep by (rule memo_stack_overflow)
  have c: "fst (Fibonacci_memoized_version_stack 1000000 18446744073709551615 fresh) \<noteq>
      Inl InvalidArgument"
    by (simp add: b)
  show ?thesis by (intro conjI a b c)
qed

text \<open>
  C8, amended. The index is unsigned, so that no negative value reaches the function: a
  negative argument \<open>n\<close>, from \<open>- 2 ^ 63\<close> on, arrives as an index of at least \<open>2 ^ 63\<close>.
  On a cache of fewer than \<open>2 ^ 31\<close> entries the call with it misses, and both
  \<^verbatim>\<open>Fibonacci(x - 1)\<close> and \<^verbatim>\<open>Fibonacci(x - 2)\<close> exhaust a call stack of fewer than
  \<open>2 ^ 62\<close> frames: the call ends there, with nothing pushed and the cache as it was,
  and not with \<open>InvalidArgument\<close>. No call, whatever its argument, the cache and the
  stack, fails with \<open>InvalidArgument\<close>.
\<close>

theorem negative_argument_exhausts_stack:
  assumes "- (2 ^ 63) \<le> n" and "n < 0" and "d < 2 ^ 62" and "length results < 2 ^ 31"
  shows "2 ^ 63 \<le> unat (of_int n :: size_t) \<and>
    Fibonacci_stack d (of_int n - 1) = Inl StackOverflow \<and>
    Fibonacci_stack d (of_int n - 2) = Inl StackOverflow \<and>
    Fibonacci_memoized_version_stack d (of_int n) results = (Inl StackOverflow, results) \<and>
    fst (Fibonacci_memoized_version_stack d' y results') \<noteq> Inl InvalidArgument \<and>
    fst (Fibonacci_memoized_version y results') \<noteq> Inl InvalidArgument"
proof -
  let ?x = "of_int n :: size_t"
  have big: "2 ^ 63 \<le> unat ?x" using assms(1,2) by (rule unat_of_negative)
  then have nz: "?x \<noteq> 0" and no: "?x \<noteq> 1" by auto
  have "d < unat (?x - 1)" using big assms(3) nz by (simp add: unat_pred)
  then have o1: "Fibonacci_stack d (?x - 1) = Inl StackOverflow"
    by (rule Fibonacci_stack_overflow)
  have "d < unat (?x - 2)" using big assms(3) nz no by (simp add: unat_pred2)
  then have o2: "Fibonacci_stack d (?x - 2) = Inl StackOverflow"
    by (rule Fibonacci_stack_overflow)
  have miss: "length results \<le> unat ?x" using big assms(4) by simp
  have deep: "Suc d < unat ?x" using big assms(3) by simp
  have over: "Fibonacci_memoized_version_stack d ?x results = (Inl StackOverflow, results)"
    using assms(4) miss deep by (rule memo_stack_overflow)
  have n1: "fst (Fibonacci_memoized_version_stack d' y results') \<noteq> Inl InvalidArgument"
    using memo_stack_error [of d' y results' InvalidArgument] by auto
  have n2: "fst (Fibonacci_memoized_version y results') \<noteq> Inl InvalidArgument"
    by (simp add: Fibonacci_memoized_version_def subscript_def Let_def)
  show ?thesis by (intro conjI big o1 o2 over n1 n2)
qed

text \<open>
  The amended C8 at the argument \<open>-2\<close>, a stack of 4096 frames and the fresh vector.
\<close>

theorem negative_argument_exhausts_stack_witness:
  "- (2 ^ 63) \<le> (- 2 :: int) \<and> (- 2 :: int) < 0 \<and> (4096 :: nat) < 2 ^ 62 \<and>
   length fresh < 2 ^ 31 \<and>
   Fibonacci_memoized_version_stack 4096 (of_int (- 2)) fresh = (Inl StackOverflow, fresh)"
proof -
  have a: "- (2 ^ 63) \<le> (- 2 :: int)" by simp
  have b: "(- 2 :: int) < 0" by simp
  have c: "(4096 :: nat) < 2 ^ 62" by simp
  have d: "length fresh < 2 ^ 31" by (simp add: fresh_def)
  note t = negative_argument_exhausts_stack [OF a b c d]
  have e: "Fibonacci_memoized_version_stack 4096 (of_int (- 2)) fresh =
      (Inl StackOverflow, fresh)"
    using t by (rule conjunct2 [THEN conjunct2, THEN conjunct2, THEN conjunct1])
  show ?thesis by (intro conjI a b c d e)
qed

subsection \<open>Subscripts in bounds\<close>

text \<open>
  C9. A call made when \<open>x\<close> is at most the number of cached entries reads inside the
  vector: the subscript \<open>x\<close> is below the size of the vector the call returns (the same
  vector on a hit, one element longer on a miss with \<open>x\<close> equal to the size), and the
  call returns the element at \<open>x\<close>. The vector has fewer than \<open>2 ^ 31\<close> entries, so that
  \<^verbatim>\<open>static_cast<int>\<close> of its size is its size; the vectors the program builds are so,
  since a call adds one element at most, and only after the naive recursion on \<open>x - 1\<close>
  has returned.
\<close>

theorem subscript_in_bounds:
  assumes "length results < 2 ^ 31" and "unat x \<le> length results"
  shows "unat x < length (snd (Fibonacci_memoized_version x results)) \<and>
    fst (Fibonacci_memoized_version x results) =
      Inr (scast (snd (Fibonacci_memoized_version x results) ! unat x))"
proof (cases "unat x < length results")
  case True
  then show ?thesis by (simp add: memo_hit [OF assms(1) True])
next
  case False
  with assms(2) have eq: "unat x = length results" by simp
  show ?thesis by (simp add: memo_miss [OF assms(1) eq] eq through_int_def)
qed

text \<open>
  C9 at the fresh vector and \<open>x = 2\<close>, a miss with \<open>x\<close> equal to the size.
\<close>

theorem subscript_in_bounds_witness:
  "length fresh < 2 ^ 31 \<and> unat (2 :: size_t) \<le> length fresh \<and>
   unat (2 :: size_t) < length (snd (Fibonacci_memoized_version 2 fresh)) \<and>
   fst (Fibonacci_memoized_version 2 fresh) =
     Inr (scast (snd (Fibonacci_memoized_version 2 fresh) ! unat (2 :: size_t)))"
proof -
  have a: "length fresh < 2 ^ 31" by (simp add: fresh_def)
  have b: "unat (2 :: size_t) \<le> length fresh" by (simp add: fresh_def)
  show ?thesis using a b subscript_in_bounds [OF a b] by simp
qed

subsection \<open>Agreement with the naive recursion\<close>

text \<open>
  C10, as stated, fails at 47 on the vector of the keys 0 to 46 (the calls with 2, 3,
  ..., 46 in index order on a fresh evaluator leave it so): the naive recursion returns
  2971215073, the memoized version returns that value narrowed to \<^verbatim>\<open>int\<close> and
  sign-extended, 18446744072385799393.
\<close>

theorem memo_47_differs:
  "snd (run (map of_nat [2..<47]) fresh) = fib_cache 47 \<and>
   unat (47 :: size_t) \<le> length (fib_cache 47) \<and>
   fst (Fibonacci_memoized_version 47 (fib_cache 47)) = Inr 18446744072385799393 \<and>
   Fibonacci 47 = 2971215073"
proof -
  have a: "snd (run (map of_nat [2..<47]) fresh) = fib_cache 47"
    by (rule run_from_fresh) simp_all
  have ok: "cache_ok (fib_cache 47)" by (simp add: cache_ok_fib_cache)
  have "fst (Fibonacci_memoized_version 47 (fib_cache 47)) = Inr (through_int (Fibonacci 47))"
    by (subst memo_ok [OF ok]) (simp_all add: length_fib_cache)
  then have b: "fst (Fibonacci_memoized_version 47 (fib_cache 47)) = Inr 18446744072385799393"
    by (simp add: Fibonacci_47 through_int_47)
  have c: "unat (47 :: size_t) \<le> length (fib_cache 47)"
    by (simp add: length_fib_cache)
  show ?thesis by (intro conjI a b c Fibonacci_47)
qed

text \<open>
  C10, amended. On a well-filled vector of fewer than \<open>2 ^ 31\<close> entries, a call
  with \<open>x\<close> at most the size returns \<^verbatim>\<open>Fibonacci(x)\<close> narrowed to \<^verbatim>\<open>int\<close> and converted
  back to \<^verbatim>\<open>size_t\<close>, which is \<^verbatim>\<open>Fibonacci(x)\<close> itself for \<open>x\<close> up to 46, and it leaves
  a well-filled vector.
\<close>

theorem memo_agrees_naive:
  assumes "cache_ok results" and "length results < 2 ^ 31" and "unat x \<le> length results"
  shows "fst (Fibonacci_memoized_version x results) = Inr (through_int (Fibonacci x)) \<and>
    (unat x \<le> 46 \<longrightarrow> fst (Fibonacci_memoized_version x results) = Inr (Fibonacci x)) \<and>
    cache_ok (snd (Fibonacci_memoized_version x results))"
proof -
  have "2 \<le> Suc (length results)" using assms(1) by (simp add: cache_ok_def)
  then have "cache_ok (fib_cache (Suc (length results)))" by (rule cache_ok_fib_cache)
  then have ok': "cache_ok (snd (Fibonacci_memoized_version x results))"
    using assms(1) by (simp add: memo_ok [OF assms])
  show ?thesis
    using ok' by (simp add: memo_ok [OF assms] through_int_Fibonacci)
qed

text \<open>
  The amended C10 at the fresh vector and \<open>x = 2\<close>.
\<close>

theorem memo_agrees_naive_witness:
  "cache_ok fresh \<and> length fresh < 2 ^ 31 \<and> unat (2 :: size_t) \<le> length fresh \<and>
   fst (Fibonacci_memoized_version 2 fresh) = Inr (Fibonacci 2) \<and>
   cache_ok (snd (Fibonacci_memoized_version 2 fresh))"
proof -
  have a: "length fresh < 2 ^ 31" by (simp add: fresh_def)
  have b: "unat (2 :: size_t) \<le> length fresh" by (simp add: fresh_def)
  note t = memo_agrees_naive [OF cache_ok_fresh a b]
  have c: "fst (Fibonacci_memoized_version 2 fresh) = Inr (Fibonacci 2)"
    using t [THEN conjunct2, THEN conjunct1] by simp
  have d: "cache_ok (snd (Fibonacci_memoized_version 2 fresh))"
    using t by (rule conjunct2 [THEN conjunct2])
  show ?thesis by (intro conjI cache_ok_fresh a b c d)
qed

end
